theory Spec2Isabelle
  imports Main "HOL-Library.Word"
begin

section \<open>A limit order book: the data model of \<open>orderbook.cpp\<close>\<close>

text \<open>
  The embedding follows \<open>src/orderbook.cpp\<close>.

  \<^item> \<open>Price\<close> is \<open>std::int32_t\<close>. The book only stores and compares prices and never
    computes with them, so a price is an \<open>int\<close>; the 32-bit range is a restriction of the
    inputs, and every concrete input below lies inside it.
  \<^item> \<open>Quantity\<close> is \<open>std::uint32_t\<close>: a \<open>32 word\<close>, whose \<open>+\<close> and \<open>-\<close> wrap around
    and whose order is the unsigned one.
  \<^item> \<open>OrderId\<close> is \<open>std::uint64_t\<close>: a \<open>64 word\<close>.
  \<^item> An \<open>Order\<close> is shared (\<open>std::shared_ptr\<close>) between the queue of its price level
    and the index \<open>orders_\<close>, and \<open>Fill\<close> mutates it in place. The model keeps one
    record per order in a store keyed by the order's identifier, which is the index
    \<open>orders_\<close>; a queue holds the identifiers of its orders, in queue order.
  \<^item> \<open>std::map\<close> is an association list in the iteration order of the map (\<open>begin()\<close> is
    the head of the list): descending prices for \<open>bids_\<close>, ascending for \<open>asks_\<close>.
  \<^item> The iterator \<open>location_\<close> of an index entry points to the list node that
    \<open>push_back\<close> created for that order; the model finds a list node by the
    identifier of its order, which no queue of a well-formed book holds twice.
  \<^item> A C++ reference is a location, and a read through it is a read of the container
    as it is when the read happens. A read through a reference to an element that has
    been erased (an index entry after \<open>orders_.erase\<close>, a list node after
    \<open>pop_front\<close>, the queue inside a map node after \<open>bids_.erase\<close>) is undefined
    behaviour: the model returns \<open>Undefined\<close> there, and says nothing of what the
    program does afterwards.
\<close>

datatype OrderType = GoodTillCancel | FillandKill

datatype Side = Buy | Sell

type_synonym Price = int
type_synonym Quantity = "32 word"
type_synonym OrderId = "64 word"

record LevelInfo =
  l_price :: Price
  l_quantity :: Quantity

type_synonym LevelInfos = "LevelInfo list"

record OrderbookLevelInfos =
  GetBids :: LevelInfos
  GetAsks :: LevelInfos

record Order =
  orderType :: OrderType
  orderId :: OrderId
  side :: Side
  price :: Price
  initialQuantity :: Quantity
  remainingQuantity :: Quantity

text \<open>The constructor \<open>Order(orderType, orderId, side, price, quantity)\<close>.\<close>

definition mkOrder :: "OrderType \<Rightarrow> OrderId \<Rightarrow> Side \<Rightarrow> Price \<Rightarrow> Quantity \<Rightarrow> Order" where
  "mkOrder ty i sd p q =
     \<lparr>orderType = ty, orderId = i, side = sd, price = p,
      initialQuantity = q, remainingQuantity = q\<rparr>"

text \<open>
  The outcomes other than a result: \<open>LogicError\<close> is the \<open>std::logic_error\<close> of
  \<open>Order::Fill\<close>, \<open>OutOfRange\<close> the \<open>std::out_of_range\<close> of \<open>std::map::at\<close>, and
  \<open>Undefined\<close> is undefined behaviour: a read through a reference to an erased
  element, \<open>front()\<close> or \<open>pop_front()\<close> of an empty list, and \<open>erase\<close> of an
  iterator that is not in the list. The model also returns it for a queue node whose
  identifier the store does not hold; no run without undefined behaviour produces
  one.
\<close>

datatype error = LogicError | OutOfRange | Undefined

text \<open>Sequencing: the first error ends the run.\<close>

definition andThen :: "error + 'a \<Rightarrow> ('a \<Rightarrow> error + 'b) \<Rightarrow> error + 'b" where
  "andThen r f = (case r of Inl e \<Rightarrow> Inl e | Inr x \<Rightarrow> f x)"

definition IsFilled :: "Order \<Rightarrow> bool" where
  "IsFilled ord \<longleftrightarrow> remainingQuantity ord = 0"

definition Fill :: "Quantity \<Rightarrow> Order \<Rightarrow> error + Order" where
  "Fill quantity ord =
     (if quantity > remainingQuantity ord then Inl LogicError
      else Inr (ord\<lparr>remainingQuantity := remainingQuantity ord - quantity\<rparr>))"

record OrderModify =
  m_orderId :: OrderId
  m_price :: Price
  m_side :: Side
  m_quantity :: Quantity

definition ToOrderPointer :: "OrderModify \<Rightarrow> OrderType \<Rightarrow> Order" where
  "ToOrderPointer om ty = mkOrder ty (m_orderId om) (m_side om) (m_price om) (m_quantity om)"

record TradeInfo =
  t_orderId :: OrderId
  t_price :: Price
  t_quantity :: Quantity

record Trade =
  GetBidTrade :: TradeInfo
  GetAskTrade :: TradeInfo

type_synonym Trades = "Trade list"

type_synonym OrderPointers = "OrderId list"
type_synonym Levels = "(Price \<times> OrderPointers) list"

record Orderbook =
  bids :: Levels
  asks :: Levels
  orders :: "OrderId \<rightharpoonup> Order"

definition empty_book :: Orderbook where
  "empty_book = \<lparr>bids = [], asks = [], orders = Map.empty\<rparr>"

text \<open>The map of a side, and writing it back.\<close>

definition side_levels :: "Side \<Rightarrow> Orderbook \<Rightarrow> Levels" where
  "side_levels sd s = (if sd = Buy then bids s else asks s)"

definition set_levels :: "Side \<Rightarrow> Levels \<Rightarrow> Orderbook \<Rightarrow> Orderbook" where
  "set_levels sd m s = (if sd = Buy then s\<lparr>bids := m\<rparr> else s\<lparr>asks := m\<rparr>)"

subsection \<open>The operations of \<open>std::map\<close> on a price-ordered association list\<close>

text \<open>
  The comparators of the two maps: \<open>std::greater<Price>\<close> for \<open>bids_\<close> and
  \<open>std::less<Price>\<close> for \<open>asks_\<close>.
\<close>

definition key_comp :: "Side \<Rightarrow> Price \<Rightarrow> Price \<Rightarrow> bool" where
  "key_comp sd x y = (if sd = Buy then x > y else x < y)"

text \<open>
  \<open>subscript before k m\<close> is \<open>m[k]\<close>: it creates the level \<open>k\<close> with an empty queue
  when the map has none, at its place in the order \<open>before\<close> of the map.
\<close>

fun subscript :: "(Price \<Rightarrow> Price \<Rightarrow> bool) \<Rightarrow> Price \<Rightarrow> Levels \<Rightarrow> Levels" where
  "subscript before k [] = [(k, [])]"
| "subscript before k ((k', q) # m) =
     (if k = k' then (k', q) # m
      else if before k k' then (k, []) # (k', q) # m
      else (k', q) # subscript before k m)"

text \<open>Writing the queue of level \<open>k\<close>.\<close>

fun assign :: "Price \<Rightarrow> OrderPointers \<Rightarrow> Levels \<Rightarrow> Levels" where
  "assign k q [] = []"
| "assign k q ((k', q') # m) = (if k = k' then (k', q) # m else (k', q') # assign k q m)"

text \<open>\<open>m.erase(k)\<close>.\<close>

fun erase :: "Price \<Rightarrow> Levels \<Rightarrow> Levels" where
  "erase k [] = []"
| "erase k ((k', q') # m) = (if k = k' then m else (k', q') # erase k m)"

text \<open>
  The queue of level \<open>k\<close>, for the places where the level is known to be there (right
  after \<open>m[k]\<close>); the queue of a level that is not there is read as empty.
\<close>

definition level :: "Levels \<Rightarrow> Price \<Rightarrow> OrderPointers" where
  "level m k = (case map_of m k of None \<Rightarrow> [] | Some q \<Rightarrow> q)"

subsection \<open>Reads through references\<close>

text \<open>
  \<open>read_level m k\<close> reads the queue through a reference (\<open>bids\<close>, \<open>asks\<close> in
  \<open>MatchOrders\<close>) to the queue inside the map node of key \<open>k\<close>: undefined once that
  node has been erased.
\<close>

definition read_level :: "Levels \<Rightarrow> Price \<Rightarrow> error + OrderPointers" where
  "read_level m k = (case map_of m k of None \<Rightarrow> Inl Undefined | Some q \<Rightarrow> Inr q)"

text \<open>\<open>p->...\<close> for the pointer \<open>p\<close> that a live queue node \<open>i\<close> holds.\<close>

definition deref :: "Orderbook \<Rightarrow> OrderId \<Rightarrow> error + Order" where
  "deref s i = (case orders s i of None \<Rightarrow> Inl Undefined | Some ord \<Rightarrow> Inr ord)"

text \<open>
  \<open>entry_ref s i\<close> reads the order through a reference into the index entry of key
  \<open>i\<close> (the structured bindings \<open>order\<close>, \<open>iterator\<close> of \<open>CancelOrder\<close> and
  \<open>existingOrder\<close> of \<open>MatchOrder\<close>): undefined once \<open>orders_.erase(i)\<close> has
  destroyed the entry.
\<close>

definition entry_ref :: "Orderbook \<Rightarrow> OrderId \<Rightarrow> error + Order" where
  "entry_ref s i = (case orders s i of None \<Rightarrow> Inl Undefined | Some ord \<Rightarrow> Inr ord)"

text \<open>
  \<open>node_ref sd p i s\<close> reads the order through a reference (\<open>bid\<close>, \<open>ask\<close> in
  \<open>MatchOrders\<close>) to the pointer inside the list node \<open>i\<close> of the queue of level \<open>p\<close>
  of side \<open>sd\<close>: undefined once the node has left the queue (\<open>pop_front\<close>) or the
  level has been erased.
\<close>

definition node_ref :: "Side \<Rightarrow> Price \<Rightarrow> OrderId \<Rightarrow> Orderbook \<Rightarrow> error + Order" where
  "node_ref sd p i s =
     (if i \<in> set (level (side_levels sd s) p) then deref s i else Inl Undefined)"

subsection \<open>\<open>CanMatch\<close> and \<open>CancelOrder\<close>\<close>

definition CanMatch :: "Side \<Rightarrow> Price \<Rightarrow> Orderbook \<Rightarrow> bool" where
  "CanMatch sd p s =
     (if sd = Buy then
        (if asks s = [] then False else p \<ge> fst (hd (asks s)))
      else
        (if bids s = [] then False else p \<le> fst (hd (bids s))))"

text \<open>
  \<open>cancel_in p i m\<close> is the body shared by the two branches of \<open>CancelOrder\<close>:
  \<open>m.at(p)\<close>, the \<open>erase\<close> of the order's node from that queue, and the \<open>erase\<close> of
  the level when its queue is left empty.
\<close>

definition cancel_in :: "Price \<Rightarrow> OrderId \<Rightarrow> Levels \<Rightarrow> error + Levels" where
  "cancel_in p i m =
     (case map_of m p of
        None \<Rightarrow> Inl OutOfRange
      | Some q \<Rightarrow>
          if i \<notin> set q then Inl Undefined
          else (let q' = remove1 i q; m' = assign p q' m
                in Inr (if q' = [] then erase p m' else m')))"

text \<open>
  \<open>CancelOrder\<close> binds \<open>const auto& [order, iterator] = orders_.at(orderId)\<close>, a
  reference into the index entry, erases the entry (\<open>orders_.erase(orderId)\<close>), and
  only then reads \<open>order->GetSide()\<close>, \<open>order->GetPrice()\<close> and \<open>iterator\<close>.
\<close>

definition CancelOrder :: "OrderId \<Rightarrow> Orderbook \<Rightarrow> error + Orderbook" where
  "CancelOrder i s =
     (case orders s i of
        None \<Rightarrow> Inr s
      | Some _ \<Rightarrow>
          (let s1 = s\<lparr>orders := (orders s)(i := None)\<rparr> in
           andThen (entry_ref s1 i) (\<lambda>ord.
             andThen (cancel_in (price ord) i (side_levels (side ord) s1)) (\<lambda>m.
               Inr (set_levels (side ord) m s1)))))"

subsection \<open>\<open>MatchOrders\<close>\<close>

text \<open>\<open>auto& bid = bids.front()\<close>: the front node of the queue of level \<open>p\<close>.\<close>

definition front_node :: "Side \<Rightarrow> Price \<Rightarrow> Orderbook \<Rightarrow> error + OrderId" where
  "front_node sd p s =
     andThen (read_level (side_levels sd s) p) (\<lambda>q.
       case q of [] \<Rightarrow> Inl Undefined | i # _ \<Rightarrow> Inr i)"

text \<open>
  \<open>bid->Fill(quantity)\<close>: the order is read through the reference when the call is
  made, and the result is seen by every holder of the pointer.
\<close>

definition Fill_node :: "Side \<Rightarrow> Price \<Rightarrow> OrderId \<Rightarrow> Quantity \<Rightarrow> Orderbook \<Rightarrow> error + Orderbook" where
  "Fill_node sd p i quantity s =
     andThen (node_ref sd p i s) (\<lambda>ord.
       andThen (Fill quantity ord) (\<lambda>ord'.
         Inr (s\<lparr>orders := (orders s)(i \<mapsto> ord')\<rparr>)))"

text \<open>\<open>bids.pop_front()\<close>.\<close>

definition pop_front :: "Side \<Rightarrow> Price \<Rightarrow> Orderbook \<Rightarrow> error + Orderbook" where
  "pop_front sd p s =
     andThen (read_level (side_levels sd s) p) (\<lambda>q.
       case q of
         [] \<Rightarrow> Inl Undefined
       | _ # q' \<Rightarrow> Inr (set_levels sd (assign p q' (side_levels sd s)) s))"

text \<open>
  \<open>if (bid->IsFilled()) { bids.pop_front(); orders_.erase(bid->GetOrderId()); }\<close>, and
  the same for \<open>ask\<close>: \<open>bid->GetOrderId()\<close> is read through \<open>bid\<close> after
  \<open>pop_front\<close>.
\<close>

definition settle_front :: "Side \<Rightarrow> Price \<Rightarrow> OrderId \<Rightarrow> Orderbook \<Rightarrow> error + Orderbook" where
  "settle_front sd p i s =
     andThen (node_ref sd p i s) (\<lambda>ord.
       if IsFilled ord then
         andThen (pop_front sd p s) (\<lambda>s1.
           andThen (node_ref sd p i s1) (\<lambda>ord1.
             Inr (s1\<lparr>orders := (orders s1)(orderId ord1 := None)\<rparr>)))
       else Inr s)"

text \<open>\<open>if (bids.empty()) bids_.erase(bidPrice);\<close>, and the same for \<open>asks\<close>.\<close>

definition drop_empty :: "Side \<Rightarrow> Price \<Rightarrow> Orderbook \<Rightarrow> error + Orderbook" where
  "drop_empty sd p s =
     andThen (read_level (side_levels sd s) p) (\<lambda>q.
       Inr (if q = [] then set_levels sd (erase p (side_levels sd s)) s else s))"

text \<open>
  The first half of one iteration of the inner \<open>while\<close> of \<open>MatchOrders\<close>:
  the two front nodes, the quantity, and the two calls of \<open>Fill\<close>. \<open>bidPrice\<close> and
  \<open>askPrice\<close> are the keys the outer iteration selected. It returns the two nodes,
  the quantity and the book.
\<close>

definition fill_both ::
  "Price \<Rightarrow> Price \<Rightarrow> Orderbook \<Rightarrow> error + OrderId \<times> OrderId \<times> Quantity \<times> Orderbook" where
  "fill_both bidPrice askPrice s =
     andThen (front_node Buy bidPrice s) (\<lambda>b.
     andThen (front_node Sell askPrice s) (\<lambda>a.
     andThen (node_ref Buy bidPrice b s) (\<lambda>bid.
     andThen (node_ref Sell askPrice a s) (\<lambda>ask.
     let quantity = min (remainingQuantity bid) (remainingQuantity ask) in
     andThen (Fill_node Buy bidPrice b quantity s) (\<lambda>s1.
     andThen (Fill_node Sell askPrice a quantity s1) (\<lambda>s2.
       Inr (b, a, quantity, s2)))))))"

text \<open>
  The second half: the two filled orders leave their queues and the index, an emptied
  level leaves its map, and the trade is built last, from \<open>bid->GetOrderId()\<close>,
  \<open>bid->GetPrice()\<close>, \<open>ask->GetOrderId()\<close> and \<open>ask->GetPrice()\<close>.
\<close>

definition settle_both ::
  "Price \<Rightarrow> Price \<Rightarrow> OrderId \<Rightarrow> OrderId \<Rightarrow> Quantity \<Rightarrow> Trades \<Rightarrow> Orderbook \<Rightarrow>
   error + Trades \<times> Orderbook" where
  "settle_both bidPrice askPrice b a quantity trades s =
     andThen (settle_front Buy bidPrice b s) (\<lambda>s1.
     andThen (settle_front Sell askPrice a s1) (\<lambda>s2.
     andThen (drop_empty Buy bidPrice s2) (\<lambda>s3.
     andThen (drop_empty Sell askPrice s3) (\<lambda>s4.
     andThen (node_ref Buy bidPrice b s4) (\<lambda>bid.
     andThen (node_ref Sell askPrice a s4) (\<lambda>ask.
       Inr (trades @
              [\<lparr>GetBidTrade = \<lparr>t_orderId = orderId bid, t_price = price bid,
                               t_quantity = quantity\<rparr>,
                GetAskTrade = \<lparr>t_orderId = orderId ask, t_price = price ask,
                               t_quantity = quantity\<rparr>\<rparr>],
            s4)))))))"

text \<open>One iteration of the inner \<open>while\<close>.\<close>

definition fill_once ::
  "Price \<Rightarrow> Price \<Rightarrow> Trades \<times> Orderbook \<Rightarrow> error + Trades \<times> Orderbook" where
  "fill_once bidPrice askPrice ts =
     andThen (fill_both bidPrice askPrice (snd ts)) (\<lambda>(b, a, quantity, s).
       settle_both bidPrice askPrice b a quantity (fst ts) s)"

text \<open>
  The inner loop: \<open>while (bids.size() && asks.size())\<close>, which reads the two queues
  through the references \<open>bids\<close> and \<open>asks\<close>, the second only when the first is not
  empty.
\<close>

partial_function (option) match_level ::
  "Price \<Rightarrow> Price \<Rightarrow> Trades \<times> Orderbook \<Rightarrow> (error + Trades \<times> Orderbook) option" where
  "match_level bidPrice askPrice ts =
     (case read_level (bids (snd ts)) bidPrice of
        Inl e \<Rightarrow> Some (Inl e)
      | Inr bq \<Rightarrow>
          if bq = [] then Some (Inr ts)
          else
            (case read_level (asks (snd ts)) askPrice of
               Inl e \<Rightarrow> Some (Inl e)
             | Inr aq \<Rightarrow>
                 if aq = [] then Some (Inr ts)
                 else
                   (case fill_once bidPrice askPrice ts of
                      Inl e \<Rightarrow> Some (Inl e)
                    | Inr ts' \<Rightarrow> match_level bidPrice askPrice ts')))"

text \<open>
  The outer loop: \<open>while (true)\<close>. It does not return when the two best levels cross
  and one of their queues is empty; not returning is the value \<open>None\<close>.
\<close>

partial_function (option) match_loop ::
  "Trades \<times> Orderbook \<Rightarrow> (error + Trades \<times> Orderbook) option" where
  "match_loop ts =
     (if bids (snd ts) = [] \<or> asks (snd ts) = [] then Some (Inr ts)
      else
        (let bidPrice = fst (hd (bids (snd ts)));
             askPrice = fst (hd (asks (snd ts))) in
         if bidPrice < askPrice then Some (Inr ts)
         else
           (case match_level bidPrice askPrice ts of
              None \<Rightarrow> None
            | Some (Inl e) \<Rightarrow> Some (Inl e)
            | Some (Inr ts') \<Rightarrow> match_loop ts')))"

text \<open>
  The two blocks after the loop: the order at the front of the best level of a side is
  cancelled when it is fill-and-kill.
\<close>

definition sweep :: "Levels \<Rightarrow> Orderbook \<Rightarrow> error + Orderbook" where
  "sweep m s =
     (if m \<noteq> [] then
        (case snd (hd m) of
           [] \<Rightarrow> Inl Undefined
         | i # _ \<Rightarrow>
             (case deref s i of
                Inl e \<Rightarrow> Inl e
              | Inr ord \<Rightarrow>
                  if orderType ord = FillandKill then CancelOrder (orderId ord) s
                  else Inr s))
      else Inr s)"

definition MatchOrders :: "Orderbook \<Rightarrow> (error + Trades \<times> Orderbook) option" where
  "MatchOrders s =
     (case match_loop ([], s) of
        None \<Rightarrow> None
      | Some (Inl e) \<Rightarrow> Some (Inl e)
      | Some (Inr (trades, s1)) \<Rightarrow>
          (case sweep (bids s1) s1 of
             Inl e \<Rightarrow> Some (Inl e)
           | Inr s2 \<Rightarrow>
               (case sweep (asks s2) s2 of
                  Inl e \<Rightarrow> Some (Inl e)
                | Inr s3 \<Rightarrow> Some (Inr (trades, s3)))))"

subsection \<open>The public operations\<close>

text \<open>
  \<open>push_order before ord m\<close> is \<open>auto& orders = m[price]; orders.push_back(order)\<close>.
\<close>

definition push_order :: "(Price \<Rightarrow> Price \<Rightarrow> bool) \<Rightarrow> Order \<Rightarrow> Levels \<Rightarrow> Levels" where
  "push_order before ord m =
     (let m' = subscript before (price ord) m
      in assign (price ord) (level m' (price ord) @ [orderId ord]) m')"

definition insert_order :: "Order \<Rightarrow> Orderbook \<Rightarrow> Orderbook" where
  "insert_order ord s =
     (let s1 = (if side ord = Buy
                then s\<lparr>bids := push_order (key_comp Buy) ord (bids s)\<rparr>
                else s\<lparr>asks := push_order (key_comp Sell) ord (asks s)\<rparr>)
      in s1\<lparr>orders := (orders s1)(orderId ord \<mapsto> ord)\<rparr>)"

definition AddOrder :: "Order \<Rightarrow> Orderbook \<Rightarrow> (error + Trades \<times> Orderbook) option" where
  "AddOrder ord s =
     (if orders s (orderId ord) \<noteq> None then Some (Inr ([], s))
      else if orderType ord = FillandKill \<and> \<not> CanMatch (side ord) (price ord) s
      then Some (Inr ([], s))
      else MatchOrders (insert_order ord s))"

text \<open>
  \<open>MatchOrder\<close> binds \<open>const auto& [existingOrder, _] = orders_.at(...)\<close>, a reference
  into the index entry, calls \<open>CancelOrder\<close>, and reads
  \<open>existingOrder->GetOrderType()\<close> after it.
\<close>

definition MatchOrder :: "OrderModify \<Rightarrow> Orderbook \<Rightarrow> (error + Trades \<times> Orderbook) option" where
  "MatchOrder om s =
     (case orders s (m_orderId om) of
        None \<Rightarrow> Some (Inr ([], s))
      | Some _ \<Rightarrow>
          (case CancelOrder (m_orderId om) s of
             Inl e \<Rightarrow> Some (Inl e)
           | Inr s1 \<Rightarrow>
               (case entry_ref s1 (m_orderId om) of
                  Inl e \<Rightarrow> Some (Inl e)
                | Inr existingOrder \<Rightarrow>
                    AddOrder (ToOrderPointer om (orderType existingOrder)) s1)))"

definition Size :: "Orderbook \<Rightarrow> nat" where
  "Size s = card (dom (orders s))"

text \<open>
  \<open>CreateLevelInfos\<close>: \<open>std::accumulate\<close> from \<open>(Quantity)0\<close>, adding in \<open>Quantity\<close>.
\<close>

fun accumulate :: "Orderbook \<Rightarrow> OrderPointers \<Rightarrow> Quantity \<Rightarrow> error + Quantity" where
  "accumulate s [] runningSum = Inr runningSum"
| "accumulate s (i # q) runningSum =
     (case deref s i of
        Inl e \<Rightarrow> Inl e
      | Inr ord \<Rightarrow> accumulate s q (runningSum + remainingQuantity ord))"

definition CreateLevelInfos :: "Orderbook \<Rightarrow> Price \<Rightarrow> OrderPointers \<Rightarrow> error + LevelInfo" where
  "CreateLevelInfos s p q =
     (case accumulate s q 0 of
        Inl e \<Rightarrow> Inl e
      | Inr runningSum \<Rightarrow> Inr \<lparr>l_price = p, l_quantity = runningSum\<rparr>)"

fun level_infos :: "Orderbook \<Rightarrow> Levels \<Rightarrow> error + LevelInfos" where
  "level_infos s [] = Inr []"
| "level_infos s ((p, q) # m) =
     (case CreateLevelInfos s p q of
        Inl e \<Rightarrow> Inl e
      | Inr li \<Rightarrow>
          (case level_infos s m of
             Inl e \<Rightarrow> Inl e
           | Inr lis \<Rightarrow> Inr (li # lis)))"

definition GetOrderInfos :: "Orderbook \<Rightarrow> error + OrderbookLevelInfos" where
  "GetOrderInfos s =
     (case level_infos s (bids s) of
        Inl e \<Rightarrow> Inl e
      | Inr bidInfos \<Rightarrow>
          (case level_infos s (asks s) of
             Inl e \<Rightarrow> Inl e
           | Inr askInfos \<Rightarrow> Inr \<lparr>GetBids = bidInfos, GetAsks = askInfos\<rparr>))"

subsection \<open>Reachable books\<close>

text \<open>
  The books that the operations reach from the empty book by runs with no error and
  no undefined behaviour.
\<close>

inductive reachable :: "Orderbook \<Rightarrow> bool" where
  r_init: "reachable empty_book"
| r_add: "reachable s \<Longrightarrow> AddOrder ord s = Some (Inr (trades, s')) \<Longrightarrow> reachable s'"
| r_cancel: "reachable s \<Longrightarrow> CancelOrder i s = Inr s' \<Longrightarrow> reachable s'"
| r_modify: "reachable s \<Longrightarrow> MatchOrder om s = Some (Inr (trades, s')) \<Longrightarrow> reachable s'"

section \<open>Definitions for the proofs\<close>

subsection \<open>Well-formed books\<close>

text \<open>
  \<open>resting os sd p i\<close>: the store holds under \<open>i\<close> an order of identifier \<open>i\<close>, side
  \<open>sd\<close> and price \<open>p\<close>.
\<close>

definition resting :: "(OrderId \<rightharpoonup> Order) \<Rightarrow> Side \<Rightarrow> Price \<Rightarrow> OrderId \<Rightarrow> bool" where
  "resting os sd p i =
     (case os i of
        None \<Rightarrow> False
      | Some ord \<Rightarrow> orderId ord = i \<and> side ord = sd \<and> price ord = p)"

text \<open>
  A well-formed side: no level is empty, no queue holds an identifier twice, every
  queued identifier is that of an order of this side and price in the store, and the
  keys are in the order of the map.
\<close>

fun wf_side :: "Side \<Rightarrow> Levels \<Rightarrow> (OrderId \<rightharpoonup> Order) \<Rightarrow> bool" where
  "wf_side sd [] os \<longleftrightarrow> True"
| "wf_side sd ((p, q) # m) os \<longleftrightarrow>
     q \<noteq> [] \<and> distinct q \<and> (\<forall>i \<in> set q. resting os sd p i) \<and>
     (\<forall>k \<in> fst ` set m. key_comp sd p k) \<and> wf_side sd m os"

text \<open>The identifiers that the queues of a map hold.\<close>

definition ids :: "Levels \<Rightarrow> OrderId list" where
  "ids m = concat (map snd m)"

definition wf_book :: "Orderbook \<Rightarrow> bool" where
  "wf_book s \<longleftrightarrow>
     wf_side Buy (bids s) (orders s) \<and>
     wf_side Sell (asks s) (orders s) \<and>
     dom (orders s) \<subseteq> set (ids (bids s)) \<union> set (ids (asks s))"

text \<open>The two best levels cross: the outer loop of \<open>MatchOrders\<close> enters its body.\<close>

definition crossing :: "Orderbook \<Rightarrow> bool" where
  "crossing s \<longleftrightarrow> bids s \<noteq> [] \<and> asks s \<noteq> [] \<and> \<not> fst (hd (bids s)) < fst (hd (asks s))"

text \<open>The keys of the two best levels: \<open>bidPrice\<close> and \<open>askPrice\<close> of the outer loop.\<close>

definition best_bid :: "Orderbook \<Rightarrow> Price" where
  "best_bid s = fst (hd (bids s))"

definition best_ask :: "Orderbook \<Rightarrow> Price" where
  "best_ask s = fst (hd (asks s))"

definition all_gtc :: "Orderbook \<Rightarrow> bool" where
  "all_gtc s \<longleftrightarrow> (\<forall>i ord. orders s i = Some ord \<longrightarrow> orderType ord = GoodTillCancel)"

text \<open>The invariant of the reachable books.\<close>

definition book_inv :: "Orderbook \<Rightarrow> bool" where
  "book_inv s \<longleftrightarrow> wf_book s \<and> \<not> crossing s \<and> all_gtc s"

subsection \<open>The snapshot\<close>

text \<open>
  The live orders of a side at a price, and the remaining quantity of a live order.
\<close>

definition live_at :: "Orderbook \<Rightarrow> Side \<Rightarrow> Price \<Rightarrow> OrderId set" where
  "live_at s sd p = {i. \<exists>ord. orders s i = Some ord \<and> side ord = sd \<and> price ord = p}"

definition remaining_of :: "Orderbook \<Rightarrow> OrderId \<Rightarrow> Quantity" where
  "remaining_of s i = (case orders s i of None \<Rightarrow> 0 | Some ord \<Rightarrow> remainingQuantity ord)"

subsection \<open>Concrete books\<close>

definition book_one_bid :: Orderbook where
  "book_one_bid =
     \<lparr>bids = [(100, [1])], asks = [],
      orders = [1 \<mapsto> mkOrder GoodTillCancel 1 Buy 100 10]\<rparr>"

definition book_two_bids :: Orderbook where
  "book_two_bids =
     \<lparr>bids = [(100, [1, 2])], asks = [],
      orders = [1 \<mapsto> mkOrder GoodTillCancel 1 Buy 100 10,
                2 \<mapsto> mkOrder GoodTillCancel 2 Buy 100 5]\<rparr>"

definition book_one_ask :: Orderbook where
  "book_one_ask =
     \<lparr>bids = [], asks = [(100, [1])],
      orders = [1 \<mapsto> mkOrder GoodTillCancel 1 Sell 100 10]\<rparr>"


definition book_two_large_bids :: Orderbook where
  "book_two_large_bids =
     \<lparr>bids = [(100, [1, 2])], asks = [],
      orders = [1 \<mapsto> mkOrder GoodTillCancel 1 Buy 100 2147483648,
                2 \<mapsto> mkOrder GoodTillCancel 2 Buy 100 2147483648]\<rparr>"

section \<open>Well-formed books\<close>

lemma restingD:
  "resting os sd p i \<Longrightarrow> \<exists>ord. os i = Some ord \<and> orderId ord = i \<and> side ord = sd \<and> price ord = p"
  by (auto simp: resting_def split: option.splits)

lemma restingI:
  "os i = Some ord \<Longrightarrow> orderId ord = i \<Longrightarrow> side ord = sd \<Longrightarrow> price ord = p \<Longrightarrow> resting os sd p i"
  by (simp add: resting_def)

lemma key_comp_irrefl [simp]: "\<not> key_comp sd p p"
  by (simp add: key_comp_def)

lemma wf_side_level:
  "wf_side sd m os \<Longrightarrow> (p, q) \<in> set m \<Longrightarrow>
     q \<noteq> [] \<and> distinct q \<and> (\<forall>i \<in> set q. resting os sd p i)"
  by (induction m) auto

lemma wf_side_keys: "wf_side sd m os \<Longrightarrow> distinct (map fst m)"
  by (induction m) force+

lemma wf_side_map_of:
  "wf_side sd m os \<Longrightarrow> (p, q) \<in> set m \<Longrightarrow> level m p = q"
  by (simp add: level_def wf_side_keys)

lemma in_ids: "i \<in> set (ids m) \<longleftrightarrow> (\<exists>p q. (p, q) \<in> set m \<and> i \<in> set q)"
  by (force simp: ids_def)

lemma wf_side_ids:
  assumes "wf_side sd m os" "i \<in> set (ids m)"
  shows "\<exists>ord. os i = Some ord \<and> orderId ord = i \<and> side ord = sd \<and> i \<in> set (level m (price ord))"
proof -
  from assms(2) obtain p q where pq: "(p, q) \<in> set m" "i \<in> set q" by (auto simp: in_ids)
  with assms(1) have "resting os sd p i" by (auto dest: wf_side_level)
  then obtain ord where "os i = Some ord" "orderId ord = i" "side ord = sd" "price ord = p"
    by (auto dest: restingD)
  moreover from assms(1) pq have "level m p = q" by (simp add: wf_side_map_of)
  ultimately show ?thesis using pq by auto
qed

lemma wf_side_distinct: "wf_side sd m os \<Longrightarrow> distinct (ids m)"
proof (induction m)
  case Nil
  then show ?case by (simp add: ids_def)
next
  case (Cons l m)
  obtain p q where l: "l = (p, q)" by (cases l)
  from Cons.prems l have rest: "wf_side sd m os" by simp
  have "set q \<inter> set (ids m) = {}"
  proof (rule ccontr)
    assume "set q \<inter> set (ids m) \<noteq> {}"
    then obtain i where i: "i \<in> set q" "i \<in> set (ids m)" by auto
    then obtain p' q' where pq: "(p', q') \<in> set m" "i \<in> set q'" by (auto simp: in_ids)
    from Cons.prems l i(1) have "resting os sd p i" by simp
    moreover from rest pq have "resting os sd p' i" by (auto dest: wf_side_level)
    ultimately have "p = p'" by (auto dest!: restingD)
    moreover from Cons.prems l pq(1) have "key_comp sd p p'" by force
    ultimately show False by simp
  qed
  moreover from Cons.prems l have "distinct q" by simp
  ultimately show ?case using Cons.IH [OF rest] l by (simp add: ids_def)
qed

lemma wf_side_static:
  assumes "wf_side sd m os"
    and "\<And>i p. i \<in> set (ids m) \<Longrightarrow> resting os sd p i \<Longrightarrow> resting os' sd p i"
  shows "wf_side sd m os'"
  using assms
proof (induction m)
  case Nil
  then show ?case by simp
next
  case (Cons l m)
  obtain p q where l: "l = (p, q)" by (cases l)
  have "wf_side sd m os'"
  proof (rule Cons.IH)
    show "wf_side sd m os" using Cons.prems(1) l by simp
    show "\<And>i p. i \<in> set (ids m) \<Longrightarrow> resting os sd p i \<Longrightarrow> resting os' sd p i"
      using Cons.prems(2) l by (simp add: ids_def)
  qed
  moreover have "\<forall>i\<in>set q. resting os' sd p i"
    using Cons.prems l by (simp add: ids_def)
  ultimately show ?case using Cons.prems(1) l by simp
qed

lemma wf_side_front:
  assumes "wf_side sd m os" "m \<noteq> []"
  obtains p i q rest ord where "m = (p, i # q) # rest" "os i = Some ord" "orderId ord = i"
    "side ord = sd" "price ord = p" "p \<notin> fst ` set rest" "i \<notin> set q"
proof -
  from assms(2) obtain p q0 rest where m: "m = (p, q0) # rest" by (cases m) auto
  with assms(1) have "q0 \<noteq> []" by simp
  then obtain i q where q0: "q0 = i # q" by (cases q0) auto
  from assms(1) m q0 have "resting os sd p i" by simp
  then obtain ord where "os i = Some ord" "orderId ord = i" "side ord = sd" "price ord = p"
    by (auto dest: restingD)
  moreover from assms(1) m have "p \<notin> fst ` set rest" by auto
  moreover from assms(1) m q0 have "i \<notin> set q" by simp
  ultimately show thesis using that m q0 by blast
qed

lemma crossing_shape:
  assumes "wf_book s" "crossing s"
  obtains bp b bq brest bo ap a aq arest ao where
    "bids s = (bp, b # bq) # brest" "asks s = (ap, a # aq) # arest"
    "orders s b = Some bo" "orders s a = Some ao" "a \<noteq> b"
    "b \<notin> set bq" "a \<notin> set aq" "ap \<le> bp"
proof -
  from assms have wb: "wf_side Buy (bids s) (orders s)" and wa: "wf_side Sell (asks s) (orders s)"
    and nb: "bids s \<noteq> []" and na: "asks s \<noteq> []"
    by (auto simp: wf_book_def crossing_def)
  from wb nb obtain bp b bq brest bo where b: "bids s = (bp, b # bq) # brest" "orders s b = Some bo"
    "side bo = Buy" "b \<notin> set bq"
    by (rule wf_side_front)
  from wa na obtain ap a aq arest ao where a: "asks s = (ap, a # aq) # arest" "orders s a = Some ao"
    "side ao = Sell" "a \<notin> set aq"
    by (rule wf_side_front)
  have ab: "a \<noteq> b"
  proof
    assume "a = b"
    with a(2) b(2) have "ao = bo" by simp
    with a(3) b(3) show False by simp
  qed
  from assms(2) a(1) b(1) have "ap \<le> bp" by (simp add: crossing_def)
  with a b ab show thesis using that by blast
qed

section \<open>Matching on a well-formed book\<close>

subsection \<open>One iteration of the loop\<close>

lemma level_Cons [simp]: "level ((k, q) # m) p = (if p = k then q else level m p)"
  by (simp add: level_def)

lemma level_Nil [simp]: "level [] p = []"
  by (simp add: level_def)

text \<open>
  On a well-formed book whose best levels cross, the first half of an iteration
  returns: both calls of \<open>Fill\<close> are made with the minimum of the two remaining
  quantities, on two different orders.
\<close>

lemma fill_both_front:
  assumes "bids s = (bp, b # bq) # brest" "asks s = (ap, a # aq) # arest"
    "orders s b = Some bo" "orders s a = Some ao" "a \<noteq> b"
  shows "fill_both bp ap s
     = Inr (b, a, min (remainingQuantity bo) (remainingQuantity ao),
            s\<lparr>orders := (orders s)
                (b \<mapsto> bo\<lparr>remainingQuantity := remainingQuantity bo
                           - min (remainingQuantity bo) (remainingQuantity ao)\<rparr>,
                 a \<mapsto> ao\<lparr>remainingQuantity := remainingQuantity ao
                           - min (remainingQuantity bo) (remainingQuantity ao)\<rparr>)\<rparr>)"
proof -
  let ?q = "min (remainingQuantity bo) (remainingQuantity ao)"
  let ?s1 = "s\<lparr>orders := (orders s)(b \<mapsto> bo\<lparr>remainingQuantity := remainingQuantity bo - ?q\<rparr>)\<rparr>"
  have fb: "front_node Buy bp s = Inr b" "front_node Sell ap s = Inr a"
    using assms(1,2) by (simp_all add: front_node_def read_level_def side_levels_def andThen_def)
  have nb: "node_ref Buy bp b s = Inr bo" "node_ref Sell ap a s = Inr ao"
    using assms(1-4) by (simp_all add: node_ref_def side_levels_def deref_def)
  have f1: "Fill_node Buy bp b ?q s = Inr ?s1"
    using nb(1) by (simp add: Fill_node_def Fill_def andThen_def not_less)
  have "node_ref Sell ap a ?s1 = Inr ao"
    using assms(2,4,5) by (simp add: node_ref_def side_levels_def deref_def)
  then have f2: "Fill_node Sell ap a ?q ?s1
      = Inr (?s1\<lparr>orders := (orders ?s1)(a \<mapsto> ao\<lparr>remainingQuantity := remainingQuantity ao - ?q\<rparr>)\<rparr>)"
    by (simp add: Fill_node_def Fill_def andThen_def not_less)
  show ?thesis
    unfolding fill_both_def
    by (simp only: fb nb f1 f2 andThen_def Let_def sum.case) simp
qed

text \<open>
  The second half does not: the order that \<open>Fill\<close> left with no remaining quantity is
  popped from its queue, and the next read through \<open>bid\<close> (or \<open>ask\<close>), for
  \<open>orders_.erase(bid->GetOrderId())\<close>, is a read through a reference to the popped
  node.
\<close>

lemma settle_front_filled:
  assumes "side_levels sd s = (p, i # q) # rest" "orders s i = Some ord"
    "remainingQuantity ord = 0" "i \<notin> set q"
  shows "settle_front sd p i s = Inl Undefined"
proof -
  have n: "node_ref sd p i s = Inr ord"
    using assms(1,2) by (simp add: node_ref_def deref_def)
  have p: "pop_front sd p s = Inr (set_levels sd ((p, q) # rest) s)"
    using assms(1) by (simp add: pop_front_def read_level_def andThen_def)
  have "side_levels sd (set_levels sd ((p, q) # rest) s) = (p, q) # rest"
    by (simp add: side_levels_def set_levels_def)
  then have "node_ref sd p i (set_levels sd ((p, q) # rest) s) = Inl Undefined"
    using assms(4) by (simp add: node_ref_def)
  with n p assms(3) show ?thesis
    by (simp add: settle_front_def andThen_def IsFilled_def)
qed

lemma settle_front_open:
  assumes "side_levels sd s = (p, i # q) # rest" "orders s i = Some ord"
    "remainingQuantity ord \<noteq> 0"
  shows "settle_front sd p i s = Inr s"
proof -
  have n: "node_ref sd p i s = Inr ord"
    using assms(1,2) by (simp add: node_ref_def deref_def)
  with assms(3) show ?thesis
    by (simp add: settle_front_def andThen_def IsFilled_def)
qed

lemma min_sub_zero:
  fixes x y :: Quantity
  shows "x - min x y = 0 \<or> y - min x y = 0"
  by (simp add: min_def)

lemma settle_both_undefined:
  assumes "bids s = (bp, b # bq) # brest" "asks s = (ap, a # aq) # arest"
    "orders s b = Some bo" "orders s a = Some ao" "b \<notin> set bq" "a \<notin> set aq"
    "remainingQuantity bo = 0 \<or> remainingQuantity ao = 0"
  shows "settle_both bp ap b a quantity trades s = Inl Undefined"
proof (cases "remainingQuantity bo = 0")
  case True
  have "settle_front Buy bp b s = Inl Undefined"
    using assms(1,3,5) True by (intro settle_front_filled) (simp_all add: side_levels_def)
  then show ?thesis by (simp add: settle_both_def andThen_def)
next
  case False
  with assms(7) have z: "remainingQuantity ao = 0" by simp
  have 1: "settle_front Buy bp b s = Inr s"
    using assms(1,3) False by (intro settle_front_open) (simp_all add: side_levels_def)
  have 2: "settle_front Sell ap a s = Inl Undefined"
    using assms(2,4,6) z by (intro settle_front_filled) (simp_all add: side_levels_def)
  from 1 2 show ?thesis by (simp add: settle_both_def andThen_def)
qed

lemma first_iteration:
  assumes "wf_book s" "crossing s"
  shows "\<exists>b a bo ao s2.
     hd (snd (hd (bids s))) = b \<and> hd (snd (hd (asks s))) = a \<and>
     orders s b = Some bo \<and> orders s a = Some ao \<and>
     fill_both (best_bid s) (best_ask s) s
       = Inr (b, a, min (remainingQuantity bo) (remainingQuantity ao), s2) \<and>
     settle_both (best_bid s) (best_ask s) b a
         (min (remainingQuantity bo) (remainingQuantity ao)) trades s2 = Inl Undefined"
proof -
  from assms obtain bp b bq brest bo ap a aq arest ao where sh:
    "bids s = (bp, b # bq) # brest" "asks s = (ap, a # aq) # arest"
    "orders s b = Some bo" "orders s a = Some ao" "a \<noteq> b"
    "b \<notin> set bq" "a \<notin> set aq"
    by (rule crossing_shape)
  let ?q = "min (remainingQuantity bo) (remainingQuantity ao)"
  let ?bo = "bo\<lparr>remainingQuantity := remainingQuantity bo - ?q\<rparr>"
  let ?ao = "ao\<lparr>remainingQuantity := remainingQuantity ao - ?q\<rparr>"
  let ?s2 = "s\<lparr>orders := (orders s)(b \<mapsto> ?bo, a \<mapsto> ?ao)\<rparr>"
  have fb: "fill_both bp ap s = Inr (b, a, ?q, ?s2)"
    using sh(1-5) by (rule fill_both_front)
  have "settle_both bp ap b a ?q trades ?s2 = Inl Undefined"
  proof (rule settle_both_undefined)
    show "bids ?s2 = (bp, b # bq) # brest" "asks ?s2 = (ap, a # aq) # arest"
      using sh(1,2) by simp_all
    show "orders ?s2 b = Some ?bo" "orders ?s2 a = Some ?ao" using sh(5) by simp_all
    show "b \<notin> set bq" "a \<notin> set aq" by fact+
    show "remainingQuantity ?bo = 0 \<or> remainingQuantity ?ao = 0"
      using min_sub_zero [of "remainingQuantity bo" "remainingQuantity ao"] by simp
  qed
  with fb sh(1-4) show ?thesis by (simp add: best_bid_def best_ask_def)
qed

lemma fill_once_undefined:
  assumes "wf_book s" "crossing s"
  shows "fill_once (best_bid s) (best_ask s) (trades, s) = Inl Undefined"
proof -
  from first_iteration [OF assms, of trades] obtain b a quantity s2 where
    "fill_both (best_bid s) (best_ask s) s = Inr (b, a, quantity, s2)"
    "settle_both (best_bid s) (best_ask s) b a quantity trades s2 = Inl Undefined"
    by blast
  then show ?thesis by (simp add: fill_once_def andThen_def)
qed

subsection \<open>\<open>MatchOrders\<close>\<close>

lemma MatchOrders_crossing:
  assumes "wf_book s" "crossing s"
  shows "MatchOrders s = Some (Inl Undefined)"
proof -
  from assms obtain bp b bq brest ap a aq arest where sh:
    "bids s = (bp, b # bq) # brest" "asks s = (ap, a # aq) # arest" "ap \<le> bp"
    by (rule crossing_shape)
  from fill_once_undefined [OF assms, of "[]"] sh
  have "fill_once bp ap ([], s) = Inl Undefined" by (simp add: best_bid_def best_ask_def)
  with sh have "match_level bp ap ([], s) = Some (Inl Undefined)"
    by (subst match_level.simps) (simp add: read_level_def)
  with sh have "match_loop ([], s) = Some (Inl Undefined)"
    by (subst match_loop.simps) simp
  then show ?thesis by (simp add: MatchOrders_def)
qed

lemma sweep_gtc:
  assumes "wf_side sd m (orders s)" "all_gtc s"
  shows "sweep m s = Inr s"
proof (cases "m = []")
  case True
  then show ?thesis by (simp add: sweep_def)
next
  case False
  with assms(1) obtain p i q rest ord where "m = (p, i # q) # rest" "orders s i = Some ord"
    by (rule wf_side_front)
  moreover from this assms(2) have "orderType ord = GoodTillCancel" by (auto simp: all_gtc_def)
  ultimately show ?thesis by (simp add: sweep_def deref_def andThen_def)
qed

lemma MatchOrders_quiet:
  assumes "wf_book s" "\<not> crossing s" "all_gtc s"
  shows "MatchOrders s = Some (Inr ([], s))"
proof -
  from assms(2) have "match_loop ([], s) = Some (Inr ([], s))"
    by (subst match_loop.simps) (auto simp: crossing_def Let_def)
  moreover from assms have "sweep (bids s) s = Inr s" "sweep (asks s) s = Inr s"
    by (auto simp: wf_book_def intro: sweep_gtc)
  ultimately show ?thesis by (simp add: MatchOrders_def andThen_def)
qed

section \<open>Insertion\<close>

lemma push_order_Nil [simp]: "push_order before ord [] = [(price ord, [orderId ord])]"
  by (simp add: push_order_def level_def)

lemma push_order_Cons [simp]:
  "push_order before ord ((k, q) # m) =
     (if price ord = k then (k, q @ [orderId ord]) # m
      else if before (price ord) k then (price ord, [orderId ord]) # (k, q) # m
      else (k, q) # push_order before ord m)"
  by (simp add: push_order_def level_def Let_def)

lemma keys_push_order: "fst ` set (push_order before ord m) = insert (price ord) (fst ` set m)"
  by (induction before "price ord" m rule: subscript.induct) (simp_all add: insert_commute)

lemma ids_Cons [simp]: "ids ((k, q) # m) = q @ ids m"
  by (simp add: ids_def)

lemma ids_Nil [simp]: "ids [] = []"
  by (simp add: ids_def)

lemma ids_push_order: "set (ids (push_order before ord m)) = insert (orderId ord) (set (ids m))"
  by (induction before "price ord" m rule: subscript.induct) auto

lemma key_comp_trans: "key_comp sd a b \<Longrightarrow> key_comp sd b c \<Longrightarrow> key_comp sd a c"
  by (auto simp: key_comp_def split: if_splits)

lemma key_comp_total: "\<not> key_comp sd a b \<Longrightarrow> a \<noteq> b \<Longrightarrow> key_comp sd b a"
  by (auto simp: key_comp_def split: if_splits)

lemma wf_side_push:
  assumes "wf_side sd m os'" "resting os' sd (price ord) (orderId ord)" "orderId ord \<notin> set (ids m)"
  shows "wf_side sd (push_order (key_comp sd) ord m) os'"
  using assms
proof (induction m)
  case Nil
  then show ?case by simp
next
  case (Cons l m)
  obtain k q where l: "l = (k, q)" by (cases l)
  from Cons.prems l have wf: "q \<noteq> []" "distinct q" "\<forall>i\<in>set q. resting os' sd k i"
    "\<forall>k'\<in>fst ` set m. key_comp sd k k'" "wf_side sd m os'" by simp_all
  from Cons.prems(3) l have ni: "orderId ord \<notin> set q" "orderId ord \<notin> set (ids m)"
    by (simp_all add: ids_def)
  show ?case
  proof (cases "price ord = k")
    case True
    with wf ni Cons.prems(2) l show ?thesis by auto
  next
    case ne: False
    show ?thesis
    proof (cases "key_comp sd (price ord) k")
      case True
      with wf(4) have "\<forall>k'\<in>fst ` set m. key_comp sd (price ord) k'"
        by (blast intro: key_comp_trans)
      with True ne wf Cons.prems(2) l show ?thesis by simp
    next
      case False
      with ne have "key_comp sd k (price ord)" by (simp add: key_comp_total)
      with wf(4) have "\<forall>k'\<in>fst ` set (push_order (key_comp sd) ord m). key_comp sd k k'"
        by (simp add: keys_push_order)
      moreover have "wf_side sd (push_order (key_comp sd) ord m) os'"
        using wf(5) Cons.prems(2) ni(2) by (rule Cons.IH)
      ultimately show ?thesis using False ne wf l by simp
    qed
  qed
qed

lemma wf_book_lookup:
  assumes "wf_book s" "orders s i = Some ord"
  shows "orderId ord = i \<and> i \<in> set (level (side_levels (side ord) s) (price ord))"
proof -
  from assms have "i \<in> set (ids (bids s)) \<or> i \<in> set (ids (asks s))"
    by (auto simp: wf_book_def)
  then show ?thesis
  proof
    assume "i \<in> set (ids (bids s))"
    with assms(1) have "\<exists>ord. orders s i = Some ord \<and> orderId ord = i \<and> side ord = Buy \<and>
        i \<in> set (level (bids s) (price ord))"
      by (intro wf_side_ids) (simp_all add: wf_book_def)
    with assms(2) show ?thesis by (auto simp: side_levels_def)
  next
    assume "i \<in> set (ids (asks s))"
    with assms(1) have "\<exists>ord. orders s i = Some ord \<and> orderId ord = i \<and> side ord = Sell \<and>
        i \<in> set (level (asks s) (price ord))"
      by (intro wf_side_ids) (simp_all add: wf_book_def)
    with assms(2) show ?thesis by (auto simp: side_levels_def)
  qed
qed

lemma wf_book_fresh:
  assumes "wf_book s" "orders s i = None"
  shows "i \<notin> set (ids (bids s))" "i \<notin> set (ids (asks s))"
  using assms wf_side_ids [of Buy "bids s" "orders s" i] wf_side_ids [of Sell "asks s" "orders s" i]
  by (auto simp: wf_book_def)

lemma wf_side_upd_fresh:
  "wf_side sd m os \<Longrightarrow> i \<notin> set (ids m) \<Longrightarrow> wf_side sd m (os(i := x))"
  by (erule wf_side_static) (auto simp: resting_def)

lemma insert_order_wf:
  assumes wf: "wf_book s" and fresh: "orders s (orderId ord) = None"
  shows "wf_book (insert_order ord s)"
proof -
  let ?i = "orderId ord"
  let ?os = "(orders s)(?i \<mapsto> ord)"
  from wf fresh have ni: "?i \<notin> set (ids (bids s))" "?i \<notin> set (ids (asks s))"
    by (rule wf_book_fresh)+
  from wf have wb: "wf_side Buy (bids s) ?os" and wa: "wf_side Sell (asks s) ?os"
    using ni by (auto simp: wf_book_def intro: wf_side_upd_fresh)
  from wf have dm: "dom (orders s) \<subseteq> set (ids (bids s)) \<union> set (ids (asks s))"
    by (simp add: wf_book_def)
  show ?thesis
  proof (cases "side ord")
    case Buy
    have "resting ?os Buy (price ord) ?i" using Buy by (simp add: resting_def)
    with wb have "wf_side Buy (push_order (key_comp Buy) ord (bids s)) ?os"
      using ni(1) by (rule wf_side_push)
    with wa dm Buy show ?thesis
      by (auto simp: wf_book_def insert_order_def ids_push_order)
  next
    case Sell
    have "resting ?os Sell (price ord) ?i" using Sell by (simp add: resting_def)
    with wa have "wf_side Sell (push_order (key_comp Sell) ord (asks s)) ?os"
      using ni(2) by (rule wf_side_push)
    with wb dm Sell show ?thesis
      by (auto simp: wf_book_def insert_order_def ids_push_order)
  qed
qed

lemma push_order_nonempty [simp]: "push_order before ord m \<noteq> []"
  by (cases m) (auto split: if_splits)

lemma hd_push_best:
  assumes "m = [] \<or> key_comp sd (price ord) (fst (hd m))"
  shows "fst (hd (push_order (key_comp sd) ord m)) = price ord"
  using assms by (cases m) auto

lemma CanMatch_crossing:
  assumes nc: "\<not> crossing s" and cm: "CanMatch (side ord) (price ord) s"
  shows "crossing (insert_order ord s)"
proof (cases "side ord")
  case Buy
  with cm have a: "asks s \<noteq> []" "fst (hd (asks s)) \<le> price ord"
    by (auto simp: CanMatch_def split: if_splits)
  with nc have "bids s = [] \<or> key_comp Buy (price ord) (fst (hd (bids s)))"
    by (auto simp: crossing_def key_comp_def)
  then have "fst (hd (push_order (key_comp Buy) ord (bids s))) = price ord"
    by (rule hd_push_best)
  with Buy a show ?thesis by (simp add: crossing_def insert_order_def)
next
  case Sell
  with cm have b: "bids s \<noteq> []" "price ord \<le> fst (hd (bids s))"
    by (auto simp: CanMatch_def split: if_splits)
  with nc have "asks s = [] \<or> key_comp Sell (price ord) (fst (hd (asks s)))"
    by (auto simp: crossing_def key_comp_def)
  then have "fst (hd (push_order (key_comp Sell) ord (asks s))) = price ord"
    by (rule hd_push_best)
  with Sell b show ?thesis by (simp add: crossing_def insert_order_def)
qed

lemma hd_push_order:
  "fst (hd (push_order before ord m)) = price ord \<or>
   (m \<noteq> [] \<and> fst (hd (push_order before ord m)) = fst (hd m))"
  by (cases m) (auto split: if_splits)

lemma not_CanMatch_not_crossing:
  assumes nc: "\<not> crossing s" and cm: "\<not> CanMatch (side ord) (price ord) s"
  shows "\<not> crossing (insert_order ord s)"
proof (cases "side ord")
  case Buy
  from hd_push_order [of "key_comp Buy" ord "bids s"] nc cm Buy
  show ?thesis
    by (auto simp: crossing_def insert_order_def CanMatch_def split: if_splits)
next
  case Sell
  from hd_push_order [of "key_comp Sell" ord "asks s"] nc cm Sell
  show ?thesis
    by (auto simp: crossing_def insert_order_def CanMatch_def split: if_splits)
qed

lemma orders_insert_order [simp]:
  "orders (insert_order ord s) = (orders s)(orderId ord \<mapsto> ord)"
  by (simp add: insert_order_def)

lemma insert_order_all_gtc:
  "all_gtc s \<Longrightarrow> orderType ord = GoodTillCancel \<Longrightarrow> all_gtc (insert_order ord s)"
  by (simp add: all_gtc_def)

section \<open>The outcomes of the operations\<close>

text \<open>
  \<open>CancelOrder\<close> returns for an identifier that is not in the index, and only then:
  for a live identifier it reads \<open>order\<close> through the erased index entry.
\<close>

lemma CancelOrder_cases:
  "CancelOrder i s = (if orders s i = None then Inr s else Inl Undefined)"
  by (auto simp: CancelOrder_def entry_ref_def andThen_def Let_def split: option.splits)

lemma MatchOrder_cases:
  "MatchOrder om s
     = (if orders s (m_orderId om) = None then Some (Inr ([], s)) else Some (Inl Undefined))"
  by (auto simp: MatchOrder_def CancelOrder_cases split: option.splits)

text \<open>
  \<open>AddOrder\<close> on a book that satisfies the invariant: a duplicate and a fill-and-kill
  order that cannot match are refused, an order that can match runs into the
  undefined read of the first iteration of the loop, and a good-till-cancel order that
  cannot match rests.
\<close>

lemma AddOrder_cases:
  assumes "book_inv s"
  shows "AddOrder ord s =
     (if orders s (orderId ord) \<noteq> None then Some (Inr ([], s))
      else if CanMatch (side ord) (price ord) s then Some (Inl Undefined)
      else if orderType ord = FillandKill then Some (Inr ([], s))
      else Some (Inr ([], insert_order ord s)))"
proof (cases "orders s (orderId ord) = None")
  case False
  then show ?thesis by (simp add: AddOrder_def)
next
  case fresh: True
  from assms have wf: "wf_book s" and nc: "\<not> crossing s" and gtc: "all_gtc s"
    by (simp_all add: book_inv_def)
  from wf fresh have wf': "wf_book (insert_order ord s)" by (rule insert_order_wf)
  show ?thesis
  proof (cases "CanMatch (side ord) (price ord) s")
    case True
    with nc have "crossing (insert_order ord s)" by (rule CanMatch_crossing)
    with wf' have "MatchOrders (insert_order ord s) = Some (Inl Undefined)"
      by (rule MatchOrders_crossing)
    with fresh True show ?thesis by (simp add: AddOrder_def)
  next
    case cm: False
    show ?thesis
    proof (cases "orderType ord")
      case FillandKill
      with fresh cm show ?thesis by (simp add: AddOrder_def)
    next
      case GoodTillCancel
      from nc cm have "\<not> crossing (insert_order ord s)" by (rule not_CanMatch_not_crossing)
      moreover from gtc GoodTillCancel have "all_gtc (insert_order ord s)"
        by (rule insert_order_all_gtc)
      ultimately have "MatchOrders (insert_order ord s) = Some (Inr ([], insert_order ord s))"
        using wf' by (intro MatchOrders_quiet)
      with fresh cm GoodTillCancel show ?thesis by (simp add: AddOrder_def)
    qed
  qed
qed

lemma insert_order_inv:
  assumes "book_inv s" "orders s (orderId ord) = None"
    "\<not> CanMatch (side ord) (price ord) s" "orderType ord = GoodTillCancel"
  shows "book_inv (insert_order ord s)"
  using assms
  by (simp add: book_inv_def insert_order_wf not_CanMatch_not_crossing insert_order_all_gtc)

lemma AddOrder_inv:
  assumes "book_inv s" "AddOrder ord s = Some (Inr (t, s'))"
  shows "book_inv s'"
  using assms(2) assms(1) insert_order_inv [of s ord]
  by (cases "orderType ord") (auto simp: AddOrder_cases [OF assms(1)] split: if_splits)

lemma reachable_inv: "reachable s \<Longrightarrow> book_inv s"
proof (induction rule: reachable.induct)
  case r_init
  show ?case by (simp add: book_inv_def wf_book_def crossing_def all_gtc_def empty_book_def)
next
  case (r_add s ord trades s')
  then show ?case by (auto intro: AddOrder_inv)
next
  case (r_cancel s i s')
  then show ?case by (auto simp: CancelOrder_cases split: if_splits)
next
  case (r_modify s om trades s')
  then show ?case by (auto simp: MatchOrder_cases split: if_splits)
qed

section \<open>Concrete runs\<close>

lemmas run_defs = AddOrder_def MatchOrders_def insert_order_def push_order_def level_def
  match_loop.simps match_level.simps fill_once_def fill_both_def settle_both_def
  front_node_def node_ref_def read_level_def side_levels_def set_levels_def Fill_node_def
  settle_front_def pop_front_def drop_empty_def andThen_def Fill_def deref_def entry_ref_def
  IsFilled_def sweep_def CancelOrder_def cancel_in_def CanMatch_def mkOrder_def empty_book_def
  Let_def MatchOrder_def ToOrderPointer_def key_comp_def

lemma add_first_bid:
  "AddOrder (mkOrder GoodTillCancel 1 Buy 100 10) empty_book = Some (Inr ([], book_one_bid))"
  by (simp add: run_defs book_one_bid_def)

lemma reachable_one_bid: "reachable book_one_bid"
  using r_init add_first_bid by (rule r_add)

lemma add_second_bid:
  "AddOrder (mkOrder GoodTillCancel 2 Buy 100 5) book_one_bid = Some (Inr ([], book_two_bids))"
  by (simp add: run_defs book_one_bid_def book_two_bids_def)

lemma reachable_two_bids: "reachable book_two_bids"
  using reachable_one_bid add_second_bid by (rule r_add)

lemma reachable_one_ask: "reachable book_one_ask"
proof -
  have "AddOrder (mkOrder GoodTillCancel 1 Sell 100 10) empty_book = Some (Inr ([], book_one_ask))"
    by (simp add: run_defs book_one_ask_def)
  with r_init show ?thesis by (rule r_add)
qed


text \<open>
  A fill-and-kill order on the empty book is refused (scenario C of the
  specification).
\<close>

lemma scenario_fill_and_kill_on_empty_book:
  "AddOrder (mkOrder FillandKill 1 Sell 100 10) empty_book = Some (Inr ([], empty_book))"
  by (simp add: run_defs)

section \<open>Duplicate identifiers\<close>

text \<open>
  C6. In every book in which an order with identifier \<open>I\<close> is live, \<open>AddOrder\<close> of any
  order with identifier \<open>I\<close> returns no trades and the book it was given (both sides
  and the index, hence \<open>Size\<close>).
\<close>

theorem AddOrder_duplicate:
  "orders s (orderId ord) = Some live \<Longrightarrow> AddOrder ord s = Some (Inr ([], s))"
  by (simp add: AddOrder_def)

theorem AddOrder_duplicate_witness:
  "orders book_one_bid (orderId (mkOrder GoodTillCancel 1 Sell 100 10))
     = Some (mkOrder GoodTillCancel 1 Buy 100 10)
   \<and> AddOrder (mkOrder GoodTillCancel 1 Sell 100 10) book_one_bid
       = Some (Inr ([], book_one_bid))"
proof -
  have live: "orders book_one_bid (orderId (mkOrder GoodTillCancel 1 Sell 100 10))
     = Some (mkOrder GoodTillCancel 1 Buy 100 10)"
    by (simp add: book_one_bid_def mkOrder_def)
  from AddOrder_duplicate [OF live] live show ?thesis by simp
qed

section \<open>Fill-and-kill admission\<close>

text \<open>
  C7 (amended). On a reachable book, a fill-and-kill order whose identifier is not
  live is rejected (\<open>AddOrder\<close> returns no trades and the book it was given) if and
  only if it cannot cross: for a buy, the ask side is empty or the price is below the
  best ask price; for a sell, the bid side is empty or the price is above the best bid
  price. An admitted one is inserted and matched, and the outcome is not the
  rejection.
\<close>

theorem fill_and_kill_rejected_iff:
  assumes "reachable s" "orderType ord = FillandKill" "orders s (orderId ord) = None"
  shows "AddOrder ord s = Some (Inr ([], s)) \<longleftrightarrow>
     (if side ord = Buy then asks s = [] \<or> price ord < fst (hd (asks s))
      else bids s = [] \<or> price ord > fst (hd (bids s)))"
proof -
  have cm: "CanMatch (side ord) (price ord) s \<longleftrightarrow>
     \<not> (if side ord = Buy then asks s = [] \<or> price ord < fst (hd (asks s))
      else bids s = [] \<or> price ord > fst (hd (bids s)))"
    by (auto simp: CanMatch_def)
  show ?thesis
  proof (cases "CanMatch (side ord) (price ord) s")
    case True
    from assms(1) have "book_inv s" by (rule reachable_inv)
    with assms(3) True have "AddOrder ord s = Some (Inl Undefined)"
      by (simp add: AddOrder_cases)
    then have "AddOrder ord s \<noteq> Some (Inr ([], s))" by simp
    with True cm show ?thesis by simp
  next
    case False
    with assms(2) have "AddOrder ord s = Some (Inr ([], s))" by (simp add: AddOrder_def)
    with False cm show ?thesis by simp
  qed
qed

theorem fill_and_kill_rejected_iff_witness:
  "reachable book_one_ask \<and> orderType (mkOrder FillandKill 2 Buy 99 5) = FillandKill \<and>
   orders book_one_ask (orderId (mkOrder FillandKill 2 Buy 99 5)) = None \<and>
   AddOrder (mkOrder FillandKill 2 Buy 99 5) book_one_ask = Some (Inr ([], book_one_ask)) \<and>
   price (mkOrder FillandKill 2 Buy 99 5) < fst (hd (asks book_one_ask)) \<and>
   AddOrder (mkOrder FillandKill 2 Buy 100 5) book_one_ask \<noteq> Some (Inr ([], book_one_ask))"
proof -
  have 1: "orderType (mkOrder FillandKill 2 Buy 99 5) = FillandKill"
    "orders book_one_ask (orderId (mkOrder FillandKill 2 Buy 99 5)) = None"
    "orderType (mkOrder FillandKill 2 Buy 100 5) = FillandKill"
    "orders book_one_ask (orderId (mkOrder FillandKill 2 Buy 100 5)) = None"
    by (simp_all add: mkOrder_def book_one_ask_def)
  from fill_and_kill_rejected_iff [OF reachable_one_ask 1(1,2)]
  have "AddOrder (mkOrder FillandKill 2 Buy 99 5) book_one_ask = Some (Inr ([], book_one_ask))"
    by (simp add: mkOrder_def book_one_ask_def)
  moreover from fill_and_kill_rejected_iff [OF reachable_one_ask 1(3,4)]
  have "AddOrder (mkOrder FillandKill 2 Buy 100 5) book_one_ask \<noteq> Some (Inr ([], book_one_ask))"
    by (simp add: mkOrder_def book_one_ask_def)
  ultimately show ?thesis using reachable_one_ask 1
    by (simp add: mkOrder_def book_one_ask_def)
qed

text \<open>
  C7 as stated fails when the identifier is live: a fill-and-kill buy at the best ask
  price can cross and is rejected all the same, as a duplicate.
\<close>

theorem fill_and_kill_duplicate_counterexample:
  "reachable book_one_ask \<and>
   orderType (mkOrder FillandKill 1 Buy 100 5) = FillandKill \<and>
   side (mkOrder FillandKill 1 Buy 100 5) = Buy \<and>
   AddOrder (mkOrder FillandKill 1 Buy 100 5) book_one_ask = Some (Inr ([], book_one_ask)) \<and>
   \<not> (asks book_one_ask = [] \<or> price (mkOrder FillandKill 1 Buy 100 5) < fst (hd (asks book_one_ask)))"
  using reachable_one_ask by (simp add: run_defs book_one_ask_def)

section \<open>The snapshot\<close>

lemma accumulate_sum:
  "\<forall>i \<in> set q. orders s i \<noteq> None \<Longrightarrow>
     accumulate s q acc = Inr (acc + sum_list (map (remaining_of s) q))"
proof (induction q arbitrary: acc)
  case Nil
  then show ?case by simp
next
  case (Cons i q)
  then obtain ord where "orders s i = Some ord" by auto
  with Cons show ?case by (simp add: deref_def remaining_of_def add.assoc)
qed

lemma wf_side_sorted: "wf_side sd m os \<Longrightarrow> sorted_wrt (key_comp sd) (map fst m)"
  by (induction m) force+

lemma wf_side_live:
  assumes wf: "wf_book s" and m: "m = side_levels sd s" and pq: "(p, q) \<in> set m"
  shows "set q = live_at s sd p" "distinct q" "q \<noteq> []"
proof -
  from wf m have ws: "wf_side sd m (orders s)"
    by (cases sd) (simp_all add: wf_book_def side_levels_def)
  from wf_side_level [OF ws pq] show "distinct q" "q \<noteq> []" by simp_all
  from ws pq have lv: "level m p = q" by (rule wf_side_map_of)
  show "set q = live_at s sd p"
  proof (intro set_eqI iffI)
    fix i assume "i \<in> set q"
    with wf_side_level [OF ws pq] have "resting (orders s) sd p i" by simp
    then show "i \<in> live_at s sd p" by (auto simp: live_at_def dest: restingD)
  next
    fix i assume "i \<in> live_at s sd p"
    then obtain ord where o: "orders s i = Some ord" "side ord = sd" "price ord = p"
      by (auto simp: live_at_def)
    from wf_book_lookup [OF wf o(1)] o m lv show "i \<in> set q" by simp
  qed
qed

lemma live_keys:
  assumes wf: "wf_book s"
  shows "fst ` set (side_levels sd s) = {p. live_at s sd p \<noteq> {}}"
proof (intro set_eqI iffI)
  fix p assume "p \<in> fst ` set (side_levels sd s)"
  then obtain q where pq: "(p, q) \<in> set (side_levels sd s)" by auto
  from wf_side_live [OF wf refl pq] have "live_at s sd p \<noteq> {}" by auto
  then show "p \<in> {p. live_at s sd p \<noteq> {}}" by simp
next
  fix p assume "p \<in> {p. live_at s sd p \<noteq> {}}"
  then obtain i ord where o: "orders s i = Some ord" "side ord = sd" "price ord = p"
    by (auto simp: live_at_def)
  from wf_book_lookup [OF wf o(1)] o have "level (side_levels sd s) p \<noteq> []" by auto
  then have "map_of (side_levels sd s) p \<noteq> None"
    by (cases "map_of (side_levels sd s) p") (simp_all add: level_def)
  then show "p \<in> fst ` set (side_levels sd s)"
    by (simp add: map_of_eq_None_iff)
qed

lemma unat_sum_mod:
  "finite A \<Longrightarrow> unat (\<Sum>i\<in>A. f i :: 32 word) = (\<Sum>i\<in>A. unat (f i)) mod 2 ^ 32"
proof (induction A rule: finite_induct)
  case empty
  show ?case by simp
next
  case (insert x F)
  then show ?case by (simp add: unat_word_ariths mod_add_right_eq)
qed

lemma level_infos_wf:
  assumes wf: "wf_book s" and sub: "set m \<subseteq> set (side_levels sd s)"
  shows "\<exists>lis. level_infos s m = Inr lis \<and> map l_price lis = map fst m \<and>
     (\<forall>li \<in> set lis. unat (l_quantity li)
        = (\<Sum>i\<in>live_at s sd (l_price li). unat (remaining_of s i)) mod 2 ^ 32)"
  using sub
proof (induction m)
  case Nil
  show ?case by simp
next
  case (Cons l m)
  obtain p q where l: "l = (p, q)" by (cases l)
  with Cons.prems have pq: "(p, q) \<in> set (side_levels sd s)" by simp
  from wf_side_live [OF wf refl pq] have q: "set q = live_at s sd p" "distinct q" by simp_all
  have "\<forall>i \<in> set q. orders s i \<noteq> None" using q(1) by (auto simp: live_at_def)
  then have acc: "accumulate s q 0 = Inr (sum_list (map (remaining_of s) q))"
    by (simp add: accumulate_sum)
  have "sum_list (map (remaining_of s) q) = (\<Sum>i\<in>live_at s sd p. remaining_of s i)"
    using q by (simp add: sum_list_distinct_conv_sum_set)
  moreover have "finite (live_at s sd p)" using q(1) [symmetric] by simp
  ultimately have u: "unat (sum_list (map (remaining_of s) q))
      = (\<Sum>i\<in>live_at s sd p. unat (remaining_of s i)) mod 2 ^ 32"
    by (simp add: unat_sum_mod)
  from Cons have "\<exists>lis. level_infos s m = Inr lis \<and> map l_price lis = map fst m \<and>
     (\<forall>li \<in> set lis. unat (l_quantity li)
        = (\<Sum>i\<in>live_at s sd (l_price li). unat (remaining_of s i)) mod 2 ^ 32)" by simp
  then obtain lis where lis: "level_infos s m = Inr lis" "map l_price lis = map fst m"
     "\<forall>li \<in> set lis. unat (l_quantity li)
        = (\<Sum>i\<in>live_at s sd (l_price li). unat (remaining_of s i)) mod 2 ^ 32" by blast
  with l acc u show ?case by (simp add: CreateLevelInfos_def)
qed

text \<open>
  C3 (amended). On every reachable book \<open>GetOrderInfos\<close> returns, for the bids in
  descending and for the asks in ascending order of price, one pair per price at which
  the side has a live order, and the quantity of the pair is the sum of the remaining
  quantities of the live orders of that side at that price modulo \<open>2 ^ 32\<close>: the sum
  is accumulated in \<open>Quantity\<close>. \<open>GetOrderInfos\<close> is a function of the book and
  returns no book: it changes nothing.
\<close>

theorem snapshot_levels:
  assumes "reachable s"
  shows "\<exists>bidInfos askInfos.
     GetOrderInfos s = Inr \<lparr>GetBids = bidInfos, GetAsks = askInfos\<rparr> \<and>
     sorted_wrt (\<lambda>x y. x > y) (map l_price bidInfos) \<and>
     sorted_wrt (\<lambda>x y. x < y) (map l_price askInfos) \<and>
     set (map l_price bidInfos) = {p. live_at s Buy p \<noteq> {}} \<and>
     set (map l_price askInfos) = {p. live_at s Sell p \<noteq> {}} \<and>
     (\<forall>li \<in> set bidInfos. unat (l_quantity li)
        = (\<Sum>i\<in>live_at s Buy (l_price li). unat (remaining_of s i)) mod 2 ^ 32) \<and>
     (\<forall>li \<in> set askInfos. unat (l_quantity li)
        = (\<Sum>i\<in>live_at s Sell (l_price li). unat (remaining_of s i)) mod 2 ^ 32)"
proof -
  from assms have wf: "wf_book s" by (auto dest: reachable_inv simp: book_inv_def)
  from level_infos_wf [OF wf, of "bids s" Buy]
  obtain bi where bi: "level_infos s (bids s) = Inr bi" "map l_price bi = map fst (bids s)"
    "\<forall>li \<in> set bi. unat (l_quantity li)
        = (\<Sum>i\<in>live_at s Buy (l_price li). unat (remaining_of s i)) mod 2 ^ 32"
    by (auto simp: side_levels_def)
  from level_infos_wf [OF wf, of "asks s" Sell]
  obtain ai where ai: "level_infos s (asks s) = Inr ai" "map l_price ai = map fst (asks s)"
    "\<forall>li \<in> set ai. unat (l_quantity li)
        = (\<Sum>i\<in>live_at s Sell (l_price li). unat (remaining_of s i)) mod 2 ^ 32"
    by (auto simp: side_levels_def)
  from wf have "sorted_wrt (key_comp Buy) (map fst (bids s))"
    "sorted_wrt (key_comp Sell) (map fst (asks s))"
    by (auto simp: wf_book_def intro: wf_side_sorted)
  then have so: "sorted_wrt (\<lambda>x y. x > y) (map l_price bi)" "sorted_wrt (\<lambda>x y. x < y) (map l_price ai)"
    using bi(2) ai(2) by (simp_all add: key_comp_def [abs_def])
  have ks: "set (map l_price bi) = {p. live_at s Buy p \<noteq> {}}"
    "set (map l_price ai) = {p. live_at s Sell p \<noteq> {}}"
    using live_keys [OF wf, of Buy] live_keys [OF wf, of Sell] bi(2) ai(2)
    by (simp_all add: side_levels_def)
  have "GetOrderInfos s = Inr \<lparr>GetBids = bi, GetAsks = ai\<rparr>"
    using bi(1) ai(1) by (simp add: GetOrderInfos_def)
  with so ks bi(3) ai(3) show ?thesis by blast
qed


lemma snapshot_two_bids:
  "GetOrderInfos book_two_bids = Inr \<lparr>GetBids = [\<lparr>l_price = 100, l_quantity = 15\<rparr>], GetAsks = []\<rparr>"
  by (simp add: GetOrderInfos_def CreateLevelInfos_def deref_def book_two_bids_def mkOrder_def)

theorem snapshot_levels_witness:
  "reachable book_two_bids \<and>
   GetOrderInfos book_two_bids
     = Inr \<lparr>GetBids = [\<lparr>l_price = 100, l_quantity = 15\<rparr>], GetAsks = []\<rparr> \<and>
   (\<Sum>i\<in>live_at book_two_bids Buy 100. unat (remaining_of book_two_bids i)) mod 2 ^ 32 = 15"
proof -
  from snapshot_levels [OF reachable_two_bids] snapshot_two_bids
  have "unat (15 :: 32 word)
      = (\<Sum>i\<in>live_at book_two_bids Buy 100. unat (remaining_of book_two_bids i)) mod 2 ^ 32"
    by auto
  with reachable_two_bids snapshot_two_bids show ?thesis by simp
qed

lemma reachable_two_large_bids: "reachable book_two_large_bids"
proof -
  have 1: "AddOrder (mkOrder GoodTillCancel 1 Buy 100 2147483648) empty_book
      = Some (Inr ([], \<lparr>bids = [(100, [1])], asks = [],
           orders = [1 \<mapsto> mkOrder GoodTillCancel 1 Buy 100 2147483648]\<rparr>))"
    by (simp add: run_defs)
  have 2: "AddOrder (mkOrder GoodTillCancel 2 Buy 100 2147483648)
        \<lparr>bids = [(100, [1])], asks = [],
           orders = [1 \<mapsto> mkOrder GoodTillCancel 1 Buy 100 2147483648]\<rparr>
      = Some (Inr ([], book_two_large_bids))"
    by (simp add: run_defs book_two_large_bids_def)
  from r_init 1 have "reachable \<lparr>bids = [(100, [1])], asks = [],
           orders = [1 \<mapsto> mkOrder GoodTillCancel 1 Buy 100 2147483648]\<rparr>" by (rule r_add)
  then show ?thesis using 2 by (rule r_add)
qed

text \<open>
  C3 as stated fails when the sum passes \<open>2 ^ 32\<close>: two resting bids of
  \<open>2147483648\<close> each at price 100 give the pair \<open>(100, 0)\<close>.
\<close>

theorem snapshot_sum_wraps_counterexample:
  "reachable book_two_large_bids \<and>
   GetOrderInfos book_two_large_bids
     = Inr \<lparr>GetBids = [\<lparr>l_price = 100, l_quantity = 0\<rparr>], GetAsks = []\<rparr> \<and>
   live_at book_two_large_bids Buy 100 = {1, 2} \<and>
   unat (remaining_of book_two_large_bids 1) = 2147483648 \<and>
   unat (remaining_of book_two_large_bids 2) = 2147483648 \<and>
   unat (0 :: Quantity)
     \<noteq> unat (remaining_of book_two_large_bids 1) + unat (remaining_of book_two_large_bids 2)"
proof -
  have "GetOrderInfos book_two_large_bids
     = Inr \<lparr>GetBids = [\<lparr>l_price = 100, l_quantity = 0\<rparr>], GetAsks = []\<rparr>"
    by (simp add: GetOrderInfos_def CreateLevelInfos_def deref_def book_two_large_bids_def mkOrder_def)
  moreover have "live_at book_two_large_bids Buy 100 = {1, 2}"
    by (auto simp: live_at_def book_two_large_bids_def mkOrder_def split: if_splits)
  moreover have "unat (remaining_of book_two_large_bids 1) = 2147483648"
    "unat (remaining_of book_two_large_bids 2) = 2147483648"
    by (simp_all add: remaining_of_def book_two_large_bids_def mkOrder_def)
  ultimately show ?thesis using reachable_two_large_bids by simp
qed

section \<open>Cancellation\<close>

text \<open>
  C8. \<open>CancelOrder\<close> returns exactly for the identifiers that are not in the index,
  and then with the book it was given; this part of the claim holds in every book. For
  a live identifier it has no defined result: \<open>order\<close> and \<open>iterator\<close> are names for
  the members of the index entry, \<open>orders_.erase(orderId)\<close> destroys the entry, and
  the next statement reads \<open>order->GetSide()\<close>. No cancellation of a live order
  removes it in a defined way, and there is no defined first cancel after which a
  second could be compared.
\<close>

theorem cancel_returns_iff:
  "(CancelOrder i s = Inr s' \<longleftrightarrow> orders s i = None \<and> s' = s) \<and>
   (orders s i = Some live \<longrightarrow> CancelOrder i s = Inl Undefined)"
  by (auto simp: CancelOrder_def entry_ref_def andThen_def Let_def split: option.splits)

text \<open>
  The run of \<open>main\<close> in \<open>orderbook.cpp\<close>: a bid is added and cancelled. An
  identifier that is not in the index is cancelled with no effect.
\<close>

theorem cancel_returns_iff_witness:
  "AddOrder (mkOrder GoodTillCancel 1 Buy 100 10) empty_book = Some (Inr ([], book_one_bid)) \<and>
   orders book_one_bid 1 = Some (mkOrder GoodTillCancel 1 Buy 100 10) \<and>
   CancelOrder 1 book_one_bid = Inl Undefined \<and>
   orders book_one_bid 2 = None \<and>
   CancelOrder 2 book_one_bid = Inr book_one_bid"
proof -
  have 1: "orders book_one_bid 1 = Some (mkOrder GoodTillCancel 1 Buy 100 10)"
    and 2: "orders book_one_bid 2 = None"
    by (simp_all add: book_one_bid_def)
  from cancel_returns_iff [of 1 book_one_bid book_one_bid "mkOrder GoodTillCancel 1 Buy 100 10"] 1
  have "CancelOrder 1 book_one_bid = Inl Undefined" by simp
  moreover from cancel_returns_iff [of 2 book_one_bid book_one_bid] 2
  have "CancelOrder 2 book_one_bid = Inr book_one_bid" by simp
  ultimately show ?thesis using add_first_bid 1 2 by simp
qed

section \<open>Modification\<close>

text \<open>
  C9. \<open>MatchOrder\<close> of an identifier that is not in the index returns no trades and
  the book it was given. For a live identifier it has no defined result: it calls
  \<open>CancelOrder\<close> of a live identifier, and what it does next is to read
  \<open>existingOrder->GetOrderType()\<close> through a reference into the index entry that
  \<open>CancelOrder\<close> erased. There is no defined cancel and no captured order type with
  which the submission of the replacement could be compared.
\<close>

theorem modify_returns_iff:
  "(MatchOrder om s = Some (Inr (trades, s')) \<longleftrightarrow>
      orders s (m_orderId om) = None \<and> trades = [] \<and> s' = s) \<and>
   (orders s (m_orderId om) = Some live \<longrightarrow>
      CancelOrder (m_orderId om) s = Inl Undefined \<and>
      MatchOrder om s = Some (Inl Undefined))"
  by (auto simp: MatchOrder_cases CancelOrder_cases)

theorem modify_returns_iff_witness:
  "reachable book_one_bid \<and>
   orders book_one_bid 1 = Some (mkOrder GoodTillCancel 1 Buy 100 10) \<and>
   MatchOrder \<lparr>m_orderId = 1, m_price = 101, m_side = Buy, m_quantity = 10\<rparr> book_one_bid
     = Some (Inl Undefined) \<and>
   orders book_one_bid 2 = None \<and>
   MatchOrder \<lparr>m_orderId = 2, m_price = 101, m_side = Buy, m_quantity = 10\<rparr> book_one_bid
     = Some (Inr ([], book_one_bid))"
proof -
  let ?om1 = "\<lparr>m_orderId = 1, m_price = 101, m_side = Buy, m_quantity = 10\<rparr>"
  let ?om2 = "\<lparr>m_orderId = 2, m_price = 101, m_side = Buy, m_quantity = 10\<rparr>"
  have 1: "orders book_one_bid 1 = Some (mkOrder GoodTillCancel 1 Buy 100 10)"
    and 2: "orders book_one_bid 2 = None"
    by (simp_all add: book_one_bid_def)
  from modify_returns_iff [of ?om1 book_one_bid "[]" book_one_bid
      "mkOrder GoodTillCancel 1 Buy 100 10"] 1
  have "MatchOrder ?om1 book_one_bid = Some (Inl Undefined)" by simp
  moreover from modify_returns_iff [of ?om2 book_one_bid "[]" book_one_bid] 2
  have "MatchOrder ?om2 book_one_bid = Some (Inr ([], book_one_bid))" by simp
  ultimately show ?thesis using reachable_one_bid 1 2 by simp
qed

section \<open>Price-time priority\<close>





text \<open>
  C1. An order that rests is appended at the tail of the queue of its level
  (\<open>level_insert_order\<close>), so of two resting orders at one price the earlier one is
  nearer the front. What a later submission takes from that level cannot be observed:
  on every reachable book a submission with a fresh identifier that can match the
  opposite side, which every submission that consumes part of a level is, has no
  defined result. Its first fill pops the order it has filled to zero and then reads
  the order through the reference to the popped node.
\<close>

theorem matching_submission_undefined:
  assumes "reachable s" "orders s (orderId ord) = None" "CanMatch (side ord) (price ord) s"
  shows "AddOrder ord s = Some (Inl Undefined)"
  using assms by (simp add: AddOrder_cases reachable_inv)

text \<open>
  Two bids rest at price 100, the order 1 of quantity 10 before the order 2 of quantity
  5, and a sell of quantity 12 at price 100 is submitted.
\<close>

theorem matching_submission_undefined_witness:
  "reachable book_two_bids \<and>
   level (bids book_two_bids) 100 = [1, 2] \<and>
   orders book_two_bids (orderId (mkOrder GoodTillCancel 3 Sell 100 12)) = None \<and>
   CanMatch (side (mkOrder GoodTillCancel 3 Sell 100 12))
     (price (mkOrder GoodTillCancel 3 Sell 100 12)) book_two_bids \<and>
   AddOrder (mkOrder GoodTillCancel 3 Sell 100 12) book_two_bids = Some (Inl Undefined)"
proof -
  have 1: "orders book_two_bids (orderId (mkOrder GoodTillCancel 3 Sell 100 12)) = None"
    and 2: "CanMatch (side (mkOrder GoodTillCancel 3 Sell 100 12))
     (price (mkOrder GoodTillCancel 3 Sell 100 12)) book_two_bids"
    and 3: "level (bids book_two_bids) 100 = [1, 2]"
    by (simp_all add: book_two_bids_def mkOrder_def CanMatch_def)
  from matching_submission_undefined [OF reachable_two_bids 1 2] reachable_two_bids 1 2 3
  show ?thesis by simp
qed

section \<open>Trade records\<close>

text \<open>
  C2. On every reachable book, when a submission with a fresh identifier can match,
  the first iteration of the loop of \<open>MatchOrders\<close> runs on the two best levels, which
  cross (\<open>askPrice \<le> bidPrice\<close>); it takes the two front orders and fills both by the
  minimum of their remaining quantities; and then it has no defined result: the trade
  record is built from \<open>bid->GetOrderId()\<close>, \<open>bid->GetPrice()\<close>,
  \<open>ask->GetOrderId()\<close> and \<open>ask->GetPrice()\<close> after \<open>pop_front\<close> has destroyed the
  node that \<open>bid\<close> or \<open>ask\<close> refers to, and \<open>orders_.erase(bid->GetOrderId())\<close>
  before it already reads through that reference. No trade is emitted by a defined
  run.
\<close>

theorem trade_record_undefined:
  assumes "reachable s" "orders s (orderId ord) = None" "CanMatch (side ord) (price ord) s"
  shows "\<exists>b a bo ao s2.
     best_ask (insert_order ord s) \<le> best_bid (insert_order ord s) \<and>
     hd (snd (hd (bids (insert_order ord s)))) = b \<and>
     hd (snd (hd (asks (insert_order ord s)))) = a \<and>
     orders (insert_order ord s) b = Some bo \<and> orders (insert_order ord s) a = Some ao \<and>
     fill_both (best_bid (insert_order ord s)) (best_ask (insert_order ord s)) (insert_order ord s)
       = Inr (b, a, min (remainingQuantity bo) (remainingQuantity ao), s2) \<and>
     settle_both (best_bid (insert_order ord s)) (best_ask (insert_order ord s)) b a
         (min (remainingQuantity bo) (remainingQuantity ao)) [] s2 = Inl Undefined"
proof -
  from assms(1) have inv: "book_inv s" by (rule reachable_inv)
  then have "wf_book (insert_order ord s)"
    using assms(2) by (simp add: book_inv_def insert_order_wf)
  moreover from inv assms(3) have cr: "crossing (insert_order ord s)"
    by (simp add: book_inv_def CanMatch_crossing)
  ultimately obtain b a bo ao s2 where
    "hd (snd (hd (bids (insert_order ord s)))) = b \<and>
     hd (snd (hd (asks (insert_order ord s)))) = a \<and>
     orders (insert_order ord s) b = Some bo \<and> orders (insert_order ord s) a = Some ao \<and>
     fill_both (best_bid (insert_order ord s)) (best_ask (insert_order ord s)) (insert_order ord s)
       = Inr (b, a, min (remainingQuantity bo) (remainingQuantity ao), s2) \<and>
     settle_both (best_bid (insert_order ord s)) (best_ask (insert_order ord s)) b a
         (min (remainingQuantity bo) (remainingQuantity ao)) [] s2 = Inl Undefined"
    using first_iteration [of "insert_order ord s" "[]"] by blast
  moreover from cr have "best_ask (insert_order ord s) \<le> best_bid (insert_order ord s)"
    by (simp add: crossing_def best_bid_def best_ask_def)
  ultimately show ?thesis by blast
qed

text \<open>
  Scenario A of the specification: a bid of quantity 10 rests at price 100 and a sell
  of quantity 10 at price 100 is submitted.
\<close>

theorem trade_record_undefined_witness:
  "reachable book_one_bid \<and>
   orders book_one_bid (orderId (mkOrder GoodTillCancel 2 Sell 100 10)) = None \<and>
   CanMatch (side (mkOrder GoodTillCancel 2 Sell 100 10))
     (price (mkOrder GoodTillCancel 2 Sell 100 10)) book_one_bid \<and>
   (\<exists>s2. fill_both 100 100 (insert_order (mkOrder GoodTillCancel 2 Sell 100 10) book_one_bid)
            = Inr (1, 2, 10, s2) \<and>
         settle_both 100 100 1 2 10 [] s2 = Inl Undefined) \<and>
   AddOrder (mkOrder GoodTillCancel 2 Sell 100 10) book_one_bid = Some (Inl Undefined)"
proof -
  let ?ord = "mkOrder GoodTillCancel 2 Sell 100 10"
  have 1: "orders book_one_bid (orderId ?ord) = None"
    and 2: "CanMatch (side ?ord) (price ?ord) book_one_bid"
    by (simp_all add: book_one_bid_def mkOrder_def CanMatch_def)
  have 3: "bids (insert_order ?ord book_one_bid) = [(100, [1])]"
    "asks (insert_order ?ord book_one_bid) = [(100, [2])]"
    "orders (insert_order ?ord book_one_bid) 1 = Some (mkOrder GoodTillCancel 1 Buy 100 10)"
    "orders (insert_order ?ord book_one_bid) 2 = Some ?ord"
    by (simp_all add: insert_order_def book_one_bid_def mkOrder_def)
  have 4: "orders book_one_bid 1 = Some (mkOrder GoodTillCancel 1 Buy 100 10)"
    by (simp add: book_one_bid_def)
  from trade_record_undefined [OF reachable_one_bid 1 2] obtain b a bo ao s2 where
    r: "hd (snd (hd (bids (insert_order ?ord book_one_bid)))) = b"
      "hd (snd (hd (asks (insert_order ?ord book_one_bid)))) = a"
      "orders (insert_order ?ord book_one_bid) b = Some bo"
      "orders (insert_order ?ord book_one_bid) a = Some ao"
      "fill_both (best_bid (insert_order ?ord book_one_bid))
         (best_ask (insert_order ?ord book_one_bid)) (insert_order ?ord book_one_bid)
         = Inr (b, a, min (remainingQuantity bo) (remainingQuantity ao), s2)"
      "settle_both (best_bid (insert_order ?ord book_one_bid))
         (best_ask (insert_order ?ord book_one_bid)) b a
         (min (remainingQuantity bo) (remainingQuantity ao)) [] s2 = Inl Undefined"
    by blast
  from r(1,2) have ba: "b = 1" "a = 2" by (simp_all only: 3 list.sel snd_conv)
  from r(3,4) have o: "bo = mkOrder GoodTillCancel 1 Buy 100 10" "ao = ?ord"
    unfolding ba 3 by simp_all
  have q: "min (remainingQuantity bo) (remainingQuantity ao) = 10"
    unfolding o by (simp add: mkOrder_def)
  from r(5,6) have "fill_both 100 100 (insert_order ?ord book_one_bid) = Inr (1, 2, 10, s2) \<and>
         settle_both 100 100 1 2 10 [] s2 = Inl Undefined"
    unfolding q ba best_bid_def best_ask_def 3 by simp
  then have "\<exists>s2. fill_both 100 100 (insert_order ?ord book_one_bid) = Inr (1, 2, 10, s2) \<and>
         settle_both 100 100 1 2 10 [] s2 = Inl Undefined" ..
  moreover have "AddOrder ?ord book_one_bid = Some (Inl Undefined)"
    by (simp add: run_defs book_one_bid_def)
  ultimately show ?thesis using reachable_one_bid 1 2 by simp
qed

section \<open>Fill-and-kill orders\<close>

text \<open>
  C10. The books reached by defined runs hold good-till-cancel orders only. On such a
  book a fill-and-kill submission is refused up front, with the book unchanged, when
  its identifier is live or it cannot match; when it is admitted, it has no defined
  result. An admitted fill-and-kill order can match, so the loop fills it, and it
  would leave the book through \<open>orders_.erase(bid->GetOrderId())\<close> after
  \<open>pop_front\<close> or through the \<open>CancelOrder\<close> of the block after the loop: both read
  through a reference to an erased element.
\<close>

theorem fill_and_kill_outcome:
  assumes "reachable s"
  shows "(\<forall>i live. orders s i = Some live \<longrightarrow> orderType live = GoodTillCancel) \<and>
     (orderType ord = FillandKill \<longrightarrow>
        AddOrder ord s =
          (if orders s (orderId ord) = None \<and> CanMatch (side ord) (price ord) s
           then Some (Inl Undefined) else Some (Inr ([], s))))"
proof -
  from assms have inv: "book_inv s" by (rule reachable_inv)
  then have "\<forall>i live. orders s i = Some live \<longrightarrow> orderType live = GoodTillCancel"
    by (simp add: book_inv_def all_gtc_def)
  moreover have "orderType ord = FillandKill \<longrightarrow>
        AddOrder ord s =
          (if orders s (orderId ord) = None \<and> CanMatch (side ord) (price ord) s
           then Some (Inl Undefined) else Some (Inr ([], s)))"
    by (simp add: AddOrder_cases [OF inv])
  ultimately show ?thesis by simp
qed

text \<open>
  A bid of quantity 10 rests at price 100 and a fill-and-kill sell of quantity 4 at
  price 100 is submitted.
\<close>

theorem fill_and_kill_outcome_witness:
  "reachable book_one_bid \<and>
   orderType (mkOrder FillandKill 2 Sell 100 4) = FillandKill \<and>
   orders book_one_bid (orderId (mkOrder FillandKill 2 Sell 100 4)) = None \<and>
   CanMatch (side (mkOrder FillandKill 2 Sell 100 4))
     (price (mkOrder FillandKill 2 Sell 100 4)) book_one_bid \<and>
   AddOrder (mkOrder FillandKill 2 Sell 100 4) book_one_bid = Some (Inl Undefined) \<and>
   AddOrder (mkOrder FillandKill 2 Sell 101 4) book_one_bid = Some (Inr ([], book_one_bid))"
proof -
  have 1: "orderType (mkOrder FillandKill 2 Sell 100 4) = FillandKill"
    "orders book_one_bid (orderId (mkOrder FillandKill 2 Sell 100 4)) = None"
    "CanMatch (side (mkOrder FillandKill 2 Sell 100 4))
       (price (mkOrder FillandKill 2 Sell 100 4)) book_one_bid"
    and 2: "orderType (mkOrder FillandKill 2 Sell 101 4) = FillandKill"
    "\<not> CanMatch (side (mkOrder FillandKill 2 Sell 101 4))
       (price (mkOrder FillandKill 2 Sell 101 4)) book_one_bid"
    by (simp_all add: book_one_bid_def mkOrder_def CanMatch_def)
  from fill_and_kill_outcome [OF reachable_one_bid, of "mkOrder FillandKill 2 Sell 100 4"] 1
  have "AddOrder (mkOrder FillandKill 2 Sell 100 4) book_one_bid = Some (Inl Undefined)"
    by simp
  moreover
  from fill_and_kill_outcome [OF reachable_one_bid, of "mkOrder FillandKill 2 Sell 101 4"] 2
  have "AddOrder (mkOrder FillandKill 2 Sell 101 4) book_one_bid = Some (Inr ([], book_one_bid))"
    by simp
  ultimately show ?thesis using reachable_one_bid 1 by simp
qed

section \<open>The error of \<open>Fill\<close>\<close>



section \<open>Orders with no remaining quantity\<close>




end
